theory Spec2Isabelle
  imports Main
begin

section \<open>Pattern-matching paths: a shallow embedding of pattern\_matcher.py\<close>

text \<open>
  The program reads a block of comma-delimited patterns and a block of slash-delimited
  paths, and prints for every path the best matching pattern or the text NO MATCH.
  Strings are byte strings (Python 2 \<open>str\<close>), modelled as \<open>string\<close>. Counts, lengths
  and sums of list indices are never negative, so they are natural numbers; the two
  count headers of the input are arbitrary Python integers and are \<open>int\<close>.
\<close>

subsection \<open>Constants\<close>

type_synonym fields = "string list"

definition WILDCARD :: string where
  "WILDCARD = ''*''"

definition PATTERN_DELIMITER :: char where
  "PATTERN_DELIMITER = CHR '',''"

definition PATH_DELIMITER :: char where
  "PATH_DELIMITER = CHR ''/''"

subsection \<open>The string methods the program calls\<close>

text \<open>
  \<open>s.rstrip(c)\<close> and \<open>s.strip(c)\<close> for a one-character argument: every occurrence of
  the character at the end (at both ends) is removed.
\<close>

definition str_rstrip :: "char \<Rightarrow> string \<Rightarrow> string" where
  "str_rstrip c s = rev (dropWhile (\<lambda>x. x = c) (rev s))"

definition str_strip :: "char \<Rightarrow> string \<Rightarrow> string" where
  "str_strip c s = str_rstrip c (dropWhile (\<lambda>x. x = c) s)"

text \<open>
  \<open>s.split(c)\<close> for a one-character separator: one field more than there are
  separators, empty fields kept, and the empty string gives one empty field.
\<close>

fun str_split :: "char \<Rightarrow> string \<Rightarrow> fields" where
  "str_split c [] = [[]]"
| "str_split c (x # xs) =
     (let r = str_split c xs
      in if x = c then [] # r
         else (case r of [] \<Rightarrow> [[x]] | f # fs \<Rightarrow> (x # f) # fs))"

text \<open>\<open>sep.join(xs)\<close>.\<close>

fun str_join :: "string \<Rightarrow> fields \<Rightarrow> string" where
  "str_join sep [] = []"
| "str_join sep [f] = f"
| "str_join sep (f # g # fs) = f @ sep @ str_join sep (g # fs)"

text \<open>
  Python 2's \<open>map(eq, xs, ys)\<close>: the shorter list is padded with \<open>None\<close>, and
  \<open>None\<close> equals no string.
\<close>

fun map_eq :: "fields \<Rightarrow> fields \<Rightarrow> bool list" where
  "map_eq [] [] = []"
| "map_eq (x # xs) [] = False # map_eq xs []"
| "map_eq [] (y # ys) = False # map_eq [] ys"
| "map_eq (x # xs) (y # ys) = (x = y) # map_eq xs ys"

subsection \<open>Errors\<close>

datatype error = TypeError | ValueError | IndexError

subsection \<open>to\_string\<close>

definition to_string :: "fields \<Rightarrow> string" where
  "to_string list_value = str_join '','' list_value"

subsection \<open>is\_potential\_match\<close>

definition is_potential_match :: "fields \<Rightarrow> fields \<Rightarrow> bool" where
  "is_potential_match path_fields pattern_fields =
     (let num_wildcards = count_list pattern_fields WILDCARD;
          num_field_matches = count_list (map_eq path_fields pattern_fields) True
      in if num_field_matches + num_wildcards = length path_fields then True else False)"

subsection \<open>resolve\_tie\<close>

definition index_sum :: "fields \<Rightarrow> nat" where
  "index_sum pattern =
     sum_list (map fst (filter (\<lambda>(i, v). v = WILDCARD) (enumerate 0 pattern)))"

text \<open>
  The loop state is the pair \<open>(winner, highest_score)\<close>, both \<open>None\<close> before the
  first pattern.
\<close>

definition resolve_tie_step ::
  "fields option \<times> nat option \<Rightarrow> fields \<Rightarrow> fields option \<times> nat option" where
  "resolve_tie_step st pattern =
     (case st of (winner, highest_score) \<Rightarrow>
        (case highest_score of
           None \<Rightarrow> (Some pattern, Some (index_sum pattern))
         | Some h \<Rightarrow>
             if index_sum pattern > h then (Some pattern, Some (index_sum pattern))
             else (winner, highest_score)))"

definition resolve_tie_loop :: "fields list \<Rightarrow> fields option \<times> nat option" where
  "resolve_tie_loop pattern_fields = foldl resolve_tie_step (None, None) pattern_fields"

definition resolve_tie :: "fields list \<Rightarrow> fields option" where
  "resolve_tie pattern_fields = fst (resolve_tie_loop pattern_fields)"

subsection \<open>get\_best\_potential\_match\<close>

text \<open>
  The loop state is the pair \<open>(fewest_wildcards, wildcard_counter)\<close>. The first-entry
  test \<open>not wildcard_counter\<close> holds for \<open>None\<close> and for \<open>0\<close>.
\<close>

definition gbpm_step ::
  "fields list \<times> nat option \<Rightarrow> fields \<Rightarrow> fields list \<times> nat option" where
  "gbpm_step st match =
     (case st of (fewest_wildcards, wildcard_counter) \<Rightarrow>
        (let num_wildcards = count_list match WILDCARD
         in case wildcard_counter of
              None \<Rightarrow> (fewest_wildcards @ [match], Some num_wildcards)
            | Some c \<Rightarrow>
                if c = 0 then (fewest_wildcards @ [match], Some num_wildcards)
                else if num_wildcards < c then ([match], Some num_wildcards)
                else if num_wildcards = c then (fewest_wildcards @ [match], Some c)
                else (fewest_wildcards, Some c)))"

definition gbpm_loop :: "fields list \<Rightarrow> fields list \<times> nat option" where
  "gbpm_loop potential_matches = foldl gbpm_step ([], None) potential_matches"

definition get_best_potential_match :: "fields list \<Rightarrow> fields option" where
  "get_best_potential_match potential_matches =
     (let fewest_wildcards = fst (gbpm_loop potential_matches)
      in case fewest_wildcards of
           [m] \<Rightarrow> Some m
         | _ \<Rightarrow> resolve_tie fewest_wildcards)"

subsection \<open>find\_match\<close>

definition path_fields_of :: "string \<Rightarrow> fields" where
  "path_fields_of path = str_split PATH_DELIMITER (str_strip PATH_DELIMITER path)"

definition pattern_fields_of :: "string \<Rightarrow> fields" where
  "pattern_fields_of pattern =
     str_split PATTERN_DELIMITER (str_strip PATTERN_DELIMITER pattern)"

text \<open>
  The scan over the patterns, with its \<open>break\<close>: the result is
  \<open>(exact_match, potential_matches)\<close> as they stand when the loop is left.
\<close>

fun find_match_loop ::
  "fields \<Rightarrow> string list \<Rightarrow> fields list \<Rightarrow> fields option \<times> fields list" where
  "find_match_loop path_fields [] potential_matches = (None, potential_matches)"
| "find_match_loop path_fields (pattern # rest) potential_matches =
     (let pattern_fields = pattern_fields_of pattern
      in if path_fields = pattern_fields then (Some pattern_fields, potential_matches)
         else if length path_fields = length pattern_fields
                 \<and> WILDCARD \<in> set pattern_fields
         then (if is_potential_match path_fields pattern_fields
               then find_match_loop path_fields rest (potential_matches @ [pattern_fields])
               else find_match_loop path_fields rest potential_matches)
         else find_match_loop path_fields rest potential_matches)"

text \<open>
  The condition under which the scan appends a pattern to \<open>potential_matches\<close>:
  the two tests of the \<open>elif\<close> branch and the test inside it.
\<close>

definition wildcard_candidate :: "fields \<Rightarrow> fields \<Rightarrow> bool" where
  "wildcard_candidate path_fields pattern_fields \<longleftrightarrow>
     length path_fields = length pattern_fields
     \<and> WILDCARD \<in> set pattern_fields
     \<and> is_potential_match path_fields pattern_fields"

text \<open>
  An empty list and \<open>None\<close> are false in a condition. \<open>to_string(None)\<close> would raise
  a TypeError in \<open>join\<close>.
\<close>

definition truthy :: "fields option \<Rightarrow> bool" where
  "truthy v = (case v of None \<Rightarrow> False | Some xs \<Rightarrow> xs \<noteq> [])"

definition find_match :: "string \<Rightarrow> string list \<Rightarrow> error + string" where
  "find_match path patterns =
     (let path_fields = path_fields_of path
      in case find_match_loop path_fields patterns [] of
           (exact_match, potential_matches) \<Rightarrow>
             if truthy exact_match then
               (case exact_match of Some e \<Rightarrow> Inr (to_string e) | None \<Rightarrow> Inl TypeError)
             else if potential_matches \<noteq> [] then
               (case potential_matches of
                  [m] \<Rightarrow> Inr (to_string m)
                | _ \<Rightarrow>
                    (case get_best_potential_match potential_matches of
                       Some best_match \<Rightarrow> Inr (to_string best_match)
                     | None \<Rightarrow> Inl TypeError))
             else Inr ''NO MATCH'')"

subsection \<open>main\<close>

text \<open>
  \<open>islice(inputs, n)\<close> refuses a stop value outside \<open>0 .. sys.maxint\<close> with a
  ValueError; otherwise it takes up to \<open>n\<close> items and leaves the rest in the generator.
\<close>

definition islice :: "int \<Rightarrow> 'a list \<Rightarrow> int \<Rightarrow> error + ('a list \<times> 'a list)" where
  "islice maxint inputs n =
     (if 0 \<le> n \<and> n \<le> maxint then Inr (take (nat n) inputs, drop (nat n) inputs)
      else Inl ValueError)"

text \<open>
  \<open>list(islice(inputs, 1))[0]\<close> followed by \<open>int\<close>: an IndexError when no line is
  left, a ValueError when the line is no integer literal. The builtin \<open>int\<close> is a
  parameter: \<open>None\<close> is its ValueError.
\<close>

definition read_count ::
  "(string \<Rightarrow> int option) \<Rightarrow> string list \<Rightarrow> error + (int \<times> string list)" where
  "read_count py_int inputs =
     (case inputs of
        [] \<Rightarrow> Inl IndexError
      | h # rest \<Rightarrow> (case py_int h of None \<Rightarrow> Inl ValueError | Some n \<Rightarrow> Inr (n, rest)))"

text \<open>The printing loop: the lines printed so far, and the error that ended it, if any.\<close>

fun print_loop ::
  "string list \<Rightarrow> string list \<Rightarrow> string list \<Rightarrow> string list \<times> error option" where
  "print_loop [] patterns out = (out, None)"
| "print_loop (path # rest) patterns out =
     (case find_match path patterns of
        Inl e \<Rightarrow> (out, Some e)
      | Inr s \<Rightarrow> print_loop rest patterns (out @ [s]))"

text \<open>
  \<open>main\<close> on the lines of the standard input, each with its line terminator: the
  lines printed, and the exception that ended the run, if any.
\<close>

definition main ::
  "(string \<Rightarrow> int option) \<Rightarrow> int \<Rightarrow> string list \<Rightarrow> string list \<times> error option" where
  "main py_int maxint stdin =
     (let inputs = map (str_rstrip (CHR 0x0A)) stdin
      in case read_count py_int inputs of
           Inl e \<Rightarrow> ([], Some e)
         | Inr (pattern_size, inputs1) \<Rightarrow>
             (case islice maxint inputs1 pattern_size of
                Inl e \<Rightarrow> ([], Some e)
              | Inr (patterns, inputs2) \<Rightarrow>
                  (case read_count py_int inputs2 of
                     Inl e \<Rightarrow> ([], Some e)
                   | Inr (path_size, inputs3) \<Rightarrow>
                       (case islice maxint inputs3 path_size of
                          Inl e \<Rightarrow> ([], Some e)
                        | Inr (paths, inputs4) \<Rightarrow> print_loop paths patterns []))))"

section \<open>Properties of the string methods\<close>

lemma drop_lead: "\<exists>i. replicate i d @ dropWhile (\<lambda>x. x = d) s = s"
proof (induction s)
  case Nil show ?case by simp
next
  case (Cons a s)
  show ?case
  proof (cases "a = d")
    case True
    from Cons obtain i where "replicate i d @ dropWhile (\<lambda>x. x = d) s = s" by blast
    then have "replicate (Suc i) d @ dropWhile (\<lambda>x. x = d) (a # s) = a # s" using True by simp
    then show ?thesis by blast
  next
    case False
    then have "replicate 0 d @ dropWhile (\<lambda>x. x = d) (a # s) = a # s" by simp
    then show ?thesis by blast
  qed
qed

lemma rstrip_tail: "\<exists>j. str_rstrip d s @ replicate j d = s"
proof -
  obtain j where "replicate j d @ dropWhile (\<lambda>x. x = d) (rev s) = rev s"
    using drop_lead[of d "rev s"] by (elim exE)
  then have "rev (replicate j d @ dropWhile (\<lambda>x. x = d) (rev s)) = rev (rev s)"
    by (rule arg_cong)
  then have "str_rstrip d s @ replicate j d = s" by (simp add: str_rstrip_def)
  then show ?thesis by blast
qed

lemma strip_decomp: "\<exists>i j. replicate i d @ str_strip d s @ replicate j d = s"
proof -
  obtain i where i: "replicate i d @ dropWhile (\<lambda>x. x = d) s = s"
    using drop_lead[of d s] by (elim exE)
  obtain j where j: "str_strip d s @ replicate j d = dropWhile (\<lambda>x. x = d) s"
    unfolding str_strip_def using rstrip_tail[of d "dropWhile (\<lambda>x. x = d) s"] by (elim exE)
  from i j have "replicate i d @ str_strip d s @ replicate j d = s" by simp
  then show ?thesis by blast
qed

lemma dropWhile_run: "dropWhile (\<lambda>x. x = d) (replicate i d @ s) = dropWhile (\<lambda>x. x = d) s"
  by (induction i) simp_all

lemma rstrip_append_run: "str_rstrip d (s @ replicate j d) = str_rstrip d s"
  by (simp add: str_rstrip_def dropWhile_run)

lemma strip_run: "str_strip d (replicate i d @ s @ replicate j d) = str_strip d s"
proof (cases "\<exists>x\<in>set s. x \<noteq> d")
  case True
  then have "dropWhile (\<lambda>x. x = d) (s @ replicate j d) = dropWhile (\<lambda>x. x = d) s @ replicate j d"
    by (auto simp: dropWhile_append1)
  then show ?thesis by (simp add: str_strip_def dropWhile_run rstrip_append_run)
next
  case False
  then have a: "dropWhile (\<lambda>x. x = d) s = []" by simp
  have "dropWhile (\<lambda>x. x = d) (s @ replicate j d) = dropWhile (\<lambda>x. x = d) (replicate j d)"
    using False by (simp add: dropWhile_append2)
  also have "\<dots> = []" by simp
  finally have b: "dropWhile (\<lambda>x. x = d) (s @ replicate j d) = []" .
  show ?thesis unfolding str_strip_def dropWhile_run by (simp only: a b)
qed

lemma rstrip_last: "str_rstrip d s \<noteq> [] \<Longrightarrow> last (str_rstrip d s) \<noteq> d"
  unfolding str_rstrip_def using hd_dropWhile[of "\<lambda>x. x = d" "rev s"]
  by (simp add: last_rev)

lemma strip_hd: "str_strip d s \<noteq> [] \<Longrightarrow> hd (str_strip d s) \<noteq> d"
proof -
  assume ne: "str_strip d s \<noteq> []"
  let ?t = "dropWhile (\<lambda>x. x = d) s"
  obtain j where j: "str_strip d s @ replicate j d = ?t"
    unfolding str_strip_def using rstrip_tail[of d ?t] by (elim exE)
  have tne: "?t \<noteq> []" using ne j[symmetric] by simp
  have "hd ?t = hd (str_strip d s @ replicate j d)" by (simp only: j)
  also have "\<dots> = hd (str_strip d s)" using ne by simp
  finally show ?thesis using hd_dropWhile[OF tne] by simp
qed

lemma strip_last: "str_strip d s \<noteq> [] \<Longrightarrow> last (str_strip d s) \<noteq> d"
  unfolding str_strip_def by (rule rstrip_last)

lemma split_ne: "str_split c s \<noteq> []"
  by (induction s) (simp_all add: Let_def split: list.split)

lemma split_cons:
  "str_split c (x # xs) =
     (if x = c then [] # str_split c xs
      else (x # hd (str_split c xs)) # tl (str_split c xs))"
  using split_ne[of c xs] by (cases "str_split c xs") (simp_all add: Let_def)

lemma split_join: "str_join [c] (str_split c s) = s"
proof (induction s)
  case Nil show ?case by simp
next
  case (Cons x xs)
  obtain f fs where r: "str_split c xs = f # fs"
    using split_ne[of c xs] by (cases "str_split c xs") simp_all
  show ?case
  proof (cases fs)
    case Nil
    with Cons r show ?thesis by (simp add: Let_def)
  next
    case (Cons g gs)
    with Cons.IH r show ?thesis by (simp add: Let_def)
  qed
qed

lemma split_no_delim: "f \<in> set (str_split c s) \<Longrightarrow> c \<notin> set f"
proof (induction s arbitrary: f)
  case Nil then show ?case by simp
next
  case (Cons x xs)
  obtain g gs where r: "str_split c xs = g # gs"
    using split_ne[of c xs] by (cases "str_split c xs") simp_all
  have g: "c \<notin> set g" using Cons.IH[of g] r by simp
  have gs: "\<And>h. h \<in> set gs \<Longrightarrow> c \<notin> set h" using Cons.IH r by simp
  show ?case
  proof (cases "x = c")
    case True
    with Cons.prems r have "f = [] \<or> f = g \<or> f \<in> set gs" by (simp add: Let_def)
    with g gs show ?thesis by auto
  next
    case False
    with Cons.prems r have "f = x # g \<or> f \<in> set gs" by (simp add: Let_def)
    with g gs False show ?thesis by auto
  qed
qed

lemma split_length: "length (str_split c s) = count_list s c + 1"
proof (induction s)
  case Nil show ?case by simp
next
  case (Cons x xs)
  obtain g gs where r: "str_split c xs = g # gs"
    using split_ne[of c xs] by (cases "str_split c xs") simp_all
  with Cons show ?case by (simp add: Let_def)
qed

lemma split_no_delim_id: "c \<notin> set f \<Longrightarrow> str_split c f = [f]"
  by (induction f) (auto simp: Let_def)

lemma split_append: "c \<notin> set f \<Longrightarrow> str_split c (f @ c # s) = f # str_split c s"
  by (induction f) (auto simp: Let_def)

lemma join_split:
  "fs \<noteq> [] \<Longrightarrow> (\<And>f. f \<in> set fs \<Longrightarrow> c \<notin> set f) \<Longrightarrow> str_split c (str_join [c] fs) = fs"
proof (induction "[c]" fs rule: str_join.induct)
  case 1 then show ?case by simp
next
  case (2 f) then show ?case by (simp add: split_no_delim_id)
next
  case (3 f g fs)
  have "str_split c (f @ c # str_join [c] (g # fs)) = f # str_split c (str_join [c] (g # fs))"
    using 3(3)[of f] by (simp add: split_append)
  also have "str_split c (str_join [c] (g # fs)) = g # fs" using 3(1) 3(3) by simp
  finally show ?case by simp
qed

lemma join_contains: "f \<in> set fs \<Longrightarrow> set f \<subseteq> set (str_join sep fs)"
  by (induction sep fs rule: str_join.induct) auto

lemma join_two_sep: "set sep \<subseteq> set (str_join sep (f # g # fs))"
  by auto

section \<open>The tie-break loop\<close>

lemma resolve_tie_loop_snoc:
  "resolve_tie_loop (ps @ [p]) = resolve_tie_step (resolve_tie_loop ps) p"
  by (simp add: resolve_tie_loop_def)

lemma resolve_tie_loop_inv:
  "ps \<noteq> [] \<Longrightarrow>
   \<exists>i<length ps. resolve_tie_loop ps = (Some (ps ! i), Some (index_sum (ps ! i)))
      \<and> (\<forall>j<length ps. index_sum (ps ! j) \<le> index_sum (ps ! i))
      \<and> (\<forall>j<i. index_sum (ps ! j) < index_sum (ps ! i))"
proof (induction ps rule: rev_induct)
  case Nil then show ?case by simp
next
  case (snoc x xs)
  show ?case
  proof (cases "xs = []")
    case True
    then have "resolve_tie_loop (xs @ [x]) = (Some x, Some (index_sum x))"
      by (simp add: resolve_tie_loop_def resolve_tie_step_def)
    with True show ?thesis by simp
  next
    case False
    from snoc.IH[OF False] obtain i where i: "i < length xs"
      and st: "resolve_tie_loop xs = (Some (xs ! i), Some (index_sum (xs ! i)))"
      and mx: "\<forall>j<length xs. index_sum (xs ! j) \<le> index_sum (xs ! i)"
      and fs: "\<forall>j<i. index_sum (xs ! j) < index_sum (xs ! i)"
      by blast
    show ?thesis
    proof (cases "index_sum x > index_sum (xs ! i)")
      case True
      have a: "resolve_tie_loop (xs @ [x]) = (Some x, Some (index_sum x))"
        using st True by (simp add: resolve_tie_loop_snoc resolve_tie_step_def)
      have b: "\<forall>j<length (xs @ [x]). index_sum ((xs @ [x]) ! j) \<le> index_sum x"
      proof (intro allI impI)
        fix j assume "j < length (xs @ [x])"
        then consider "j < length xs" | "j = length xs" by fastforce
        then show "index_sum ((xs @ [x]) ! j) \<le> index_sum x"
        proof cases
          case 1
          then have "index_sum (xs ! j) \<le> index_sum (xs ! i)" using mx by simp
          with True 1 show ?thesis by (simp add: nth_append)
        next
          case 2 then show ?thesis by simp
        qed
      qed
      have c: "\<forall>j<length xs. index_sum ((xs @ [x]) ! j) < index_sum x"
      proof (intro allI impI)
        fix j assume j: "j < length xs"
        then have "index_sum (xs ! j) \<le> index_sum (xs ! i)" using mx by simp
        with True j show "index_sum ((xs @ [x]) ! j) < index_sum x" by (simp add: nth_append)
      qed
      have "length xs < length (xs @ [x])
          \<and> resolve_tie_loop (xs @ [x]) = (Some ((xs @ [x]) ! length xs), Some (index_sum ((xs @ [x]) ! length xs)))
          \<and> (\<forall>j<length (xs @ [x]). index_sum ((xs @ [x]) ! j) \<le> index_sum ((xs @ [x]) ! length xs))
          \<and> (\<forall>j<length xs. index_sum ((xs @ [x]) ! j) < index_sum ((xs @ [x]) ! length xs))"
        using a b c by simp
      then show ?thesis by blast
    next
      case False
      have a: "resolve_tie_loop (xs @ [x]) = (Some (xs ! i), Some (index_sum (xs ! i)))"
        using st False by (simp add: resolve_tie_loop_snoc resolve_tie_step_def)
      have b: "\<forall>j<length (xs @ [x]). index_sum ((xs @ [x]) ! j) \<le> index_sum (xs ! i)"
      proof (intro allI impI)
        fix j assume "j < length (xs @ [x])"
        then consider "j < length xs" | "j = length xs" by fastforce
        then show "index_sum ((xs @ [x]) ! j) \<le> index_sum (xs ! i)"
        proof cases
          case 1
          then show ?thesis using mx by (simp add: nth_append)
        next
          case 2 then show ?thesis using False by simp
        qed
      qed
      have c: "\<forall>j<i. index_sum ((xs @ [x]) ! j) < index_sum (xs ! i)"
        using fs i by (simp add: nth_append)
      have "i < length (xs @ [x])
          \<and> resolve_tie_loop (xs @ [x]) = (Some ((xs @ [x]) ! i), Some (index_sum ((xs @ [x]) ! i)))
          \<and> (\<forall>j<length (xs @ [x]). index_sum ((xs @ [x]) ! j) \<le> index_sum ((xs @ [x]) ! i))
          \<and> (\<forall>j<i. index_sum ((xs @ [x]) ! j) < index_sum ((xs @ [x]) ! i))"
        using a b c i by (simp add: nth_append)
      then show ?thesis by blast
    qed
  qed
qed

lemma resolve_tie_in_set: "ps \<noteq> [] \<Longrightarrow> \<exists>w. resolve_tie ps = Some w \<and> w \<in> set ps"
proof -
  assume ne: "ps \<noteq> []"
  from resolve_tie_loop_inv[OF ne] obtain k where k: "k < length ps"
    and st: "resolve_tie_loop ps = (Some (ps ! k), Some (index_sum (ps ! k)))"
    by blast
  then have "resolve_tie ps = Some (ps ! k) \<and> ps ! k \<in> set ps"
    by (simp add: resolve_tie_def)
  then show ?thesis by blast
qed

lemma resolve_tie_unique_max:
  assumes m: "m \<in> set ps"
    and mx: "\<forall>q\<in>set ps. q \<noteq> m \<longrightarrow> index_sum q < index_sum m"
  shows "resolve_tie ps = Some m"
proof -
  from m have ne: "ps \<noteq> []" by auto
  from resolve_tie_loop_inv[OF ne] obtain k where k: "k < length ps"
    and st: "resolve_tie_loop ps = (Some (ps ! k), Some (index_sum (ps ! k)))"
    and kmx: "\<forall>j<length ps. index_sum (ps ! j) \<le> index_sum (ps ! k)"
    by blast
  from m obtain i where i: "i < length ps" "ps ! i = m" by (auto simp: in_set_conv_nth)
  have "ps ! k = m"
  proof (rule ccontr)
    assume "ps ! k \<noteq> m"
    moreover have "ps ! k \<in> set ps" using k by simp
    ultimately have "index_sum (ps ! k) < index_sum m" using mx by blast
    moreover have "index_sum m \<le> index_sum (ps ! k)" using kmx i by auto
    ultimately show False by simp
  qed
  with st show ?thesis by (simp add: resolve_tie_def)
qed

lemma resolve_tie_replicate: "0 < n \<Longrightarrow> resolve_tie (replicate n m) = Some m"
  by (rule resolve_tie_unique_max) auto

lemma resolve_tie_earliest:
  assumes i: "i < length ps"
    and mx: "\<forall>j<length ps. index_sum (ps ! j) \<le> index_sum (ps ! i)"
    and fs: "\<forall>j<i. index_sum (ps ! j) < index_sum (ps ! i)"
  shows "resolve_tie ps = Some (ps ! i)"
proof -
  from i have ne: "ps \<noteq> []" by auto
  from resolve_tie_loop_inv[OF ne] obtain k where k: "k < length ps"
    and st: "resolve_tie_loop ps = (Some (ps ! k), Some (index_sum (ps ! k)))"
    and kmx: "\<forall>j<length ps. index_sum (ps ! j) \<le> index_sum (ps ! k)"
    and kfs: "\<forall>j<k. index_sum (ps ! j) < index_sum (ps ! k)"
    by blast
  have "k = i"
  proof (rule ccontr)
    assume "k \<noteq> i"
    then consider "k < i" | "i < k" by fastforce
    then show False
    proof cases
      case 1
      then have "index_sum (ps ! k) < index_sum (ps ! i)" using fs by simp
      moreover have "index_sum (ps ! i) \<le> index_sum (ps ! k)" using kmx i by simp
      ultimately show False by simp
    next
      case 2
      then have "index_sum (ps ! i) < index_sum (ps ! k)" using kfs by simp
      moreover have "index_sum (ps ! k) \<le> index_sum (ps ! i)" using mx k by simp
      ultimately show False by simp
    qed
  qed
  with st show ?thesis by (simp add: resolve_tie_def)
qed

section \<open>The fewest-wildcards loop\<close>

lemma gbpm_loop_snoc: "gbpm_loop (ms @ [m]) = gbpm_step (gbpm_loop ms) m"
  by (simp add: gbpm_loop_def)

lemma gbpm_loop_general:
  "ms \<noteq> [] \<Longrightarrow>
   fst (gbpm_loop ms) \<noteq> [] \<and> set (fst (gbpm_loop ms)) \<subseteq> set ms \<and> snd (gbpm_loop ms) \<noteq> None"
proof (induction ms rule: rev_induct)
  case Nil then show ?case by simp
next
  case (snoc x xs)
  show ?case
  proof (cases "xs = []")
    case True
    then show ?thesis by (simp add: gbpm_loop_def gbpm_step_def)
  next
    case False
    from snoc.IH[OF False] obtain fw c where st: "gbpm_loop xs = (fw, Some c)"
      and fw: "fw \<noteq> []" "set fw \<subseteq> set xs"
      by (cases "gbpm_loop xs") auto
    show ?thesis unfolding gbpm_loop_snoc st using fw
      by (auto simp: gbpm_step_def Let_def)
  qed
qed

lemma gbpm_loop_wild:
  "ms \<noteq> [] \<Longrightarrow> \<forall>m\<in>set ms. 1 \<le> count_list m WILDCARD \<Longrightarrow>
   gbpm_loop ms =
     (filter (\<lambda>m. count_list m WILDCARD = Min ((\<lambda>m. count_list m WILDCARD) ` set ms)) ms,
      Some (Min ((\<lambda>m. count_list m WILDCARD) ` set ms)))"
proof (induction ms rule: rev_induct)
  case Nil then show ?case by simp
next
  case (snoc x xs)
  let ?w = "\<lambda>m. count_list m WILDCARD"
  show ?case
  proof (cases "xs = []")
    case True
    then show ?thesis by (simp add: gbpm_loop_def gbpm_step_def)
  next
    case False
    let ?c = "Min (?w ` set xs)"
    have st: "gbpm_loop xs = (filter (\<lambda>m. ?w m = ?c) xs, Some ?c)"
      using snoc.IH[OF False] snoc.prems(2) by simp
    have fin: "finite (?w ` set xs)" "?w ` set xs \<noteq> {}" using False by simp_all
    have cin: "?c \<in> ?w ` set xs" using Min_in[OF fin] .
    have cpos: "1 \<le> ?c" using cin snoc.prems(2) by auto
    have cle: "\<And>m. m \<in> set xs \<Longrightarrow> ?c \<le> ?w m" using fin by simp
    have mn: "Min (?w ` set (xs @ [x])) = min (?w x) ?c"
      using fin by simp
    show ?thesis
    proof (cases "?w x < ?c")
      case True
      have "filter (\<lambda>m. ?w m = ?w x) xs = []"
      proof (rule filter_False, rule ballI)
        fix m assume "m \<in> set xs"
        then have "?c \<le> ?w m" by (rule cle)
        with True show "?w m \<noteq> ?w x" by simp
      qed
      moreover have "min (?w x) ?c = ?w x" using True by simp
      ultimately show ?thesis
        unfolding gbpm_loop_snoc st mn using True cpos
        by (simp add: gbpm_step_def Let_def)
    next
      case False
      then have m2: "min (?w x) ?c = ?c" by simp
      show ?thesis
        unfolding gbpm_loop_snoc st mn m2 using False cpos
        by (auto simp: gbpm_step_def Let_def)
    qed
  qed
qed

section \<open>The scan over the patterns\<close>

lemma find_match_loop_step:
  "find_match_loop pf (p # rest) acc =
     (if pf = pattern_fields_of p then (Some pf, acc)
      else if wildcard_candidate pf (pattern_fields_of p)
           then find_match_loop pf rest (acc @ [pattern_fields_of p])
           else find_match_loop pf rest acc)"
  unfolding wildcard_candidate_def find_match_loop.simps Let_def by presburger

lemma find_match_loop_sub:
  "set (snd (find_match_loop pf pats acc))
     \<subseteq> set acc \<union> {f \<in> pattern_fields_of ` set pats. wildcard_candidate pf f}"
proof (induction pats arbitrary: acc)
  case Nil show ?case by simp
next
  case (Cons p ps)
  let ?f = "pattern_fields_of p"
  consider "pf = ?f" | "pf \<noteq> ?f" "wildcard_candidate pf ?f"
    | "pf \<noteq> ?f" "\<not> wildcard_candidate pf ?f" by blast
  then show ?case
  proof cases
    case 1 then show ?thesis unfolding find_match_loop_step by simp
  next
    case 2
    have "set (snd (find_match_loop pf ps (acc @ [?f])))
        \<subseteq> set (acc @ [?f]) \<union> {f \<in> pattern_fields_of ` set ps. wildcard_candidate pf f}"
      by (rule Cons.IH)
    also have "\<dots> \<subseteq> set acc \<union> {f \<in> pattern_fields_of ` set (p # ps). wildcard_candidate pf f}"
      using 2 by auto
    finally show ?thesis using 2 unfolding find_match_loop_step by simp
  next
    case 3
    have "set (snd (find_match_loop pf ps acc))
        \<subseteq> set acc \<union> {f \<in> pattern_fields_of ` set ps. wildcard_candidate pf f}"
      by (rule Cons.IH)
    also have "\<dots> \<subseteq> set acc \<union> {f \<in> pattern_fields_of ` set (p # ps). wildcard_candidate pf f}"
      by auto
    finally show ?thesis using 3 unfolding find_match_loop_step by simp
  qed
qed

lemma find_match_loop_exact:
  "pf \<in> pattern_fields_of ` set pats \<Longrightarrow> fst (find_match_loop pf pats acc) = Some pf"
proof (induction pats arbitrary: acc)
  case Nil then show ?case by simp
next
  case (Cons p ps)
  show ?case
  proof (cases "pf = pattern_fields_of p")
    case True then show ?thesis unfolding find_match_loop_step by simp
  next
    case False
    with Cons.prems have "pf \<in> pattern_fields_of ` set ps" by auto
    then have "\<And>a. fst (find_match_loop pf ps a) = Some pf" by (rule Cons.IH)
    with False show ?thesis unfolding find_match_loop_step by simp
  qed
qed

lemma find_match_loop_none:
  "pf \<notin> pattern_fields_of ` set pats \<Longrightarrow>
   find_match_loop pf pats acc
     = (None, acc @ filter (wildcard_candidate pf) (map pattern_fields_of pats))"
proof (induction pats arbitrary: acc)
  case Nil show ?case by simp
next
  case (Cons p ps)
  from Cons.prems have ne: "pf \<noteq> pattern_fields_of p" and r: "pf \<notin> pattern_fields_of ` set ps"
    by auto
  have ih: "\<And>a. find_match_loop pf ps a
      = (None, a @ filter (wildcard_candidate pf) (map pattern_fields_of ps))"
    using r by (rule Cons.IH)
  show ?case unfolding find_match_loop_step ih using ne by simp
qed

lemma pattern_fields_ne: "pattern_fields_of p \<noteq> []"
  by (simp add: pattern_fields_of_def split_ne)

lemma path_fields_ne: "path_fields_of p \<noteq> []"
  by (simp add: path_fields_of_def split_ne)

lemma get_best_of_fewest:
  "get_best_potential_match ms =
     (case fst (gbpm_loop ms) of [] \<Rightarrow> resolve_tie [] | [m] \<Rightarrow> Some m
      | a # b # cs \<Rightarrow> resolve_tie (fst (gbpm_loop ms)))"
  unfolding get_best_potential_match_def Let_def
  by (simp split: list.split)

lemma get_best_in_set:
  "ms \<noteq> [] \<Longrightarrow> \<exists>r. get_best_potential_match ms = Some r \<and> r \<in> set ms"
proof -
  assume ne: "ms \<noteq> []"
  define F where "F = fst (gbpm_loop ms)"
  from gbpm_loop_general[OF ne] have F: "F \<noteq> []" "set F \<subseteq> set ms" by (simp_all add: F_def)
  from resolve_tie_in_set[OF F(1)] obtain w where w: "resolve_tie F = Some w" "w \<in> set F"
    by (elim exE conjE)
  have g: "get_best_potential_match ms =
     (case F of [] \<Rightarrow> resolve_tie [] | [m] \<Rightarrow> Some m | a # b # cs \<Rightarrow> resolve_tie F)"
    unfolding F_def by (rule get_best_of_fewest)
  have "\<exists>r. get_best_potential_match ms = Some r \<and> r \<in> set F"
  proof (cases F)
    case Nil with F(1) show ?thesis by contradiction
  next
    case (Cons a as)
    note Fa = Cons
    show ?thesis
    proof (cases as)
      case Nil
      with Fa g show ?thesis by simp
    next
      case (Cons b bs)
      with Fa g have "get_best_potential_match ms = resolve_tie F" by simp
      with w show ?thesis by simp
    qed
  qed
  with F(2) show ?thesis by blast
qed

lemma wild_count: "WILDCARD \<in> set m \<longleftrightarrow> 1 \<le> count_list m WILDCARD"
  using count_list_0_iff[of m WILDCARD] by (cases "count_list m WILDCARD") auto

lemma fewest_filter:
  assumes wild: "\<forall>c\<in>set ms. WILDCARD \<in> set c"
    and m: "m \<in> set ms"
    and mn: "\<forall>c\<in>set ms. count_list m WILDCARD \<le> count_list c WILDCARD"
  shows "gbpm_loop ms =
     (filter (\<lambda>c. count_list c WILDCARD = count_list m WILDCARD) ms,
      Some (count_list m WILDCARD))"
proof -
  let ?w = "\<lambda>m. count_list m WILDCARD"
  from m have ne: "ms \<noteq> []" by auto
  have fin: "finite (?w ` set ms)" by simp
  have "Min (?w ` set ms) = ?w m"
  proof (rule Min_eqI[OF fin])
    fix y assume "y \<in> ?w ` set ms"
    then show "?w m \<le> y" using mn by auto
  next
    show "?w m \<in> ?w ` set ms" using m by simp
  qed
  moreover have "\<forall>c\<in>set ms. 1 \<le> ?w c" using wild wild_count by blast
  ultimately show ?thesis using gbpm_loop_wild[OF ne] by simp
qed

section \<open>The best-match resolver\<close>

text \<open>
  Claim C2. The candidates handed to \<open>get_best_potential_match\<close> all contain a
  wildcard field. For every non-empty list of such candidates the resolver returns one
  of them, no candidate has fewer wildcard fields than the one returned, and a candidate
  with strictly fewer wildcard fields than every other candidate is the one returned.
\<close>

theorem get_best_fewest_wildcards:
  assumes wild: "\<forall>c\<in>set ms. WILDCARD \<in> set c"
    and ne: "ms \<noteq> []"
  shows "\<exists>r. get_best_potential_match ms = Some r \<and> r \<in> set ms
      \<and> (\<forall>c\<in>set ms. count_list r WILDCARD \<le> count_list c WILDCARD)
      \<and> (\<forall>m\<in>set ms.
            (\<forall>c\<in>set ms. c \<noteq> m \<longrightarrow> count_list m WILDCARD < count_list c WILDCARD)
            \<longrightarrow> r = m)"
proof -
  let ?w = "\<lambda>m. count_list m WILDCARD"
  have fin: "finite (?w ` set ms)" "?w ` set ms \<noteq> {}" using ne by simp_all
  from Min_in[OF fin] obtain m0 where m0: "m0 \<in> set ms" "?w m0 = Min (?w ` set ms)" by auto
  have m0le: "\<forall>c\<in>set ms. ?w m0 \<le> ?w c" using m0(2) fin by simp
  define F where "F = filter (\<lambda>c. ?w c = ?w m0) ms"
  have loop: "fst (gbpm_loop ms) = F"
    using fewest_filter[OF wild m0(1) m0le] by (simp add: F_def)
  from get_best_in_set[OF ne] obtain r where r: "get_best_potential_match ms = Some r"
    by (elim exE conjE)
  have Fne: "F \<noteq> []" using m0(1) by (auto simp: F_def filter_empty_conv)
  have g: "get_best_potential_match ms =
     (case F of [] \<Rightarrow> resolve_tie [] | [m] \<Rightarrow> Some m | a # b # cs \<Rightarrow> resolve_tie F)"
    unfolding loop[symmetric] by (rule get_best_of_fewest)
  have rF: "r \<in> set F"
  proof (cases F)
    case Nil with Fne show ?thesis by contradiction
  next
    case (Cons a as)
    note Fa = Cons
    show ?thesis
    proof (cases as)
      case Nil
      with Fa g r show ?thesis by simp
    next
      case (Cons b bs)
      with Fa g have "get_best_potential_match ms = resolve_tie F" by simp
      moreover from resolve_tie_in_set[OF Fne] obtain w where "resolve_tie F = Some w" "w \<in> set F"
        by (elim exE conjE)
      ultimately show ?thesis using r by simp
    qed
  qed
  then have r1: "r \<in> set ms" and r2: "?w r = ?w m0" by (simp_all add: F_def)
  have r3: "\<forall>c\<in>set ms. ?w r \<le> ?w c" using m0le r2 by simp
  have r4: "\<forall>m\<in>set ms. (\<forall>c\<in>set ms. c \<noteq> m \<longrightarrow> ?w m < ?w c) \<longrightarrow> r = m"
  proof (intro ballI impI)
    fix m assume m: "m \<in> set ms" and u: "\<forall>c\<in>set ms. c \<noteq> m \<longrightarrow> ?w m < ?w c"
    show "r = m"
    proof (rule ccontr)
      assume "r \<noteq> m"
      then have "?w m < ?w r" using u r1 by blast
      moreover have "?w r \<le> ?w m" using r3 m by blast
      ultimately show False by simp
    qed
  qed
  from r r1 r3 r4 show ?thesis by blast
qed

text \<open>
  The spec's example: \<open>*,*,c\<close> has two wildcard fields, \<open>a,*,c\<close> has one and wins.
\<close>

theorem get_best_fewest_wildcards_witness:
  "WILDCARD \<in> set [''*'', ''*'', ''c''] \<and> WILDCARD \<in> set [''a'', ''*'', ''c'']
   \<and> [[''*'', ''*'', ''c''], [''a'', ''*'', ''c'']] \<noteq> []
   \<and> get_best_potential_match [[''*'', ''*'', ''c''], [''a'', ''*'', ''c'']]
       = Some [''a'', ''*'', ''c'']"
proof -
  let ?ms = "[[''*'', ''*'', ''c''], [''a'', ''*'', ''c'']]"
  have w: "\<forall>c\<in>set ?ms. WILDCARD \<in> set c" by (simp add: WILDCARD_def)
  have n: "?ms \<noteq> []" by simp
  from get_best_fewest_wildcards[OF w n] obtain r where r: "get_best_potential_match ?ms = Some r"
    and u: "\<forall>m\<in>set ?ms.
            (\<forall>c\<in>set ?ms. c \<noteq> m \<longrightarrow> count_list m WILDCARD < count_list c WILDCARD)
            \<longrightarrow> r = m"
    by blast
  have "r = [''a'', ''*'', ''c'']" using u by (simp add: WILDCARD_def)
  with r w n show ?thesis by simp
qed

text \<open>
  Claim C3. Among the candidates with the minimal number of wildcard fields, the one
  whose sum of the zero-based positions of its wildcard fields is strictly greater than
  that of every other such candidate is returned. The comparison is on the sum of the
  positions, not on the position of the leftmost wildcard.
\<close>

theorem get_best_index_sum_tie_break:
  assumes wild: "\<forall>c\<in>set ms. WILDCARD \<in> set c"
    and m: "m \<in> set ms"
    and mn: "\<forall>c\<in>set ms. count_list m WILDCARD \<le> count_list c WILDCARD"
    and mx: "\<forall>c\<in>set ms. c \<noteq> m \<and> count_list c WILDCARD = count_list m WILDCARD
               \<longrightarrow> index_sum c < index_sum m"
  shows "get_best_potential_match ms = Some m"
proof -
  let ?w = "\<lambda>m. count_list m WILDCARD"
  define F where "F = filter (\<lambda>c. ?w c = ?w m) ms"
  have loop: "fst (gbpm_loop ms) = F"
    using fewest_filter[OF wild m mn] by (simp add: F_def)
  have mF: "m \<in> set F" using m by (simp add: F_def)
  have Fmx: "\<forall>q\<in>set F. q \<noteq> m \<longrightarrow> index_sum q < index_sum m"
    using mx by (simp add: F_def)
  have rt: "resolve_tie F = Some m" using mF Fmx by (rule resolve_tie_unique_max)
  have g: "get_best_potential_match ms =
     (case F of [] \<Rightarrow> resolve_tie [] | [m] \<Rightarrow> Some m | a # b # cs \<Rightarrow> resolve_tie F)"
    unfolding loop[symmetric] by (rule get_best_of_fewest)
  show ?thesis
  proof (cases F)
    case Nil with mF show ?thesis by simp
  next
    case (Cons a as)
    note Fa = Cons
    show ?thesis
    proof (cases as)
      case Nil
      with Fa mF have "a = m" by simp
      with Fa Nil g show ?thesis by simp
    next
      case (Cons b bs)
      with Fa g have "get_best_potential_match ms = resolve_tie F" by simp
      with rt show ?thesis by simp
    qed
  qed
qed

text \<open>
  Wildcards at positions 0 and 4 (sum 4) win over wildcards at positions 1 and 2
  (sum 3), although the leftmost wildcard of the loser is further to the right.
\<close>

theorem get_best_index_sum_tie_break_witness:
  "WILDCARD \<in> set [''*'', ''b'', ''c'', ''d'', ''*'']
   \<and> WILDCARD \<in> set [''a'', ''*'', ''*'', ''d'', ''e'']
   \<and> index_sum [''*'', ''b'', ''c'', ''d'', ''*''] = 4
   \<and> index_sum [''a'', ''*'', ''*'', ''d'', ''e''] = 3
   \<and> get_best_potential_match
        [[''*'', ''b'', ''c'', ''d'', ''*''], [''a'', ''*'', ''*'', ''d'', ''e'']]
       = Some [''*'', ''b'', ''c'', ''d'', ''*'']"
proof -
  let ?a = "[''*'', ''b'', ''c'', ''d'', ''*'']"
  let ?b = "[''a'', ''*'', ''*'', ''d'', ''e'']"
  have ia: "index_sum ?a = 4" by (simp add: index_sum_def WILDCARD_def enumerate_eq_zip upt_rec)
  have ib: "index_sum ?b = 3" by (simp add: index_sum_def WILDCARD_def enumerate_eq_zip upt_rec)
  have w: "\<forall>c\<in>set [?a, ?b]. WILDCARD \<in> set c" by (simp add: WILDCARD_def)
  have m: "?a \<in> set [?a, ?b]" by simp
  have mn: "\<forall>c\<in>set [?a, ?b]. count_list ?a WILDCARD \<le> count_list c WILDCARD"
    by (simp add: WILDCARD_def)
  have mx: "\<forall>c\<in>set [?a, ?b]. c \<noteq> ?a \<and> count_list c WILDCARD = count_list ?a WILDCARD
               \<longrightarrow> index_sum c < index_sum ?a"
    using ia ib by simp
  from get_best_index_sum_tie_break[OF w m mn mx] ia ib w show ?thesis by simp
qed

text \<open>
  Claim C9. When several patterns share the highest index sum, \<open>resolve_tie\<close>
  returns the one that comes first in the list: the pattern at position \<open>i\<close> is
  returned when no pattern has a greater index sum and every pattern before it has a
  strictly smaller one.
\<close>

theorem resolve_tie_first_in_order:
  assumes "i < length ps"
    and "\<forall>j<length ps. index_sum (ps ! j) \<le> index_sum (ps ! i)"
    and "\<forall>j<i. index_sum (ps ! j) < index_sum (ps ! i)"
  shows "resolve_tie ps = Some (ps ! i)"
  using assms by (rule resolve_tie_earliest)

text \<open>
  The second and the third pattern both have index sum 3, the first has 2: the second
  is returned.
\<close>

theorem resolve_tie_first_in_order_witness:
  "(1::nat) < length [[''*'', ''b'', ''*'', ''d''], [''*'', ''b'', ''c'', ''*''], [''a'', ''*'', ''*'', ''d'']]
   \<and> index_sum [''*'', ''b'', ''c'', ''*''] = 3
   \<and> index_sum [''a'', ''*'', ''*'', ''d''] = 3
   \<and> index_sum [''*'', ''b'', ''*'', ''d''] = 2
   \<and> resolve_tie [[''*'', ''b'', ''*'', ''d''], [''*'', ''b'', ''c'', ''*''], [''a'', ''*'', ''*'', ''d'']]
       = Some [''*'', ''b'', ''c'', ''*'']"
proof -
  let ?a = "[''*'', ''b'', ''c'', ''*'']"
  let ?b = "[''a'', ''*'', ''*'', ''d'']"
  let ?c = "[''*'', ''b'', ''*'', ''d'']"
  have ia: "index_sum ?a = 3" by (simp add: index_sum_def WILDCARD_def enumerate_eq_zip upt_rec)
  have ib: "index_sum ?b = 3" by (simp add: index_sum_def WILDCARD_def enumerate_eq_zip upt_rec)
  have ic: "index_sum ?c = 2" by (simp add: index_sum_def WILDCARD_def enumerate_eq_zip upt_rec)
  have i: "(1::nat) < length [?c, ?a, ?b]" by simp
  have mx: "\<forall>j<length [?c, ?a, ?b]. index_sum ([?c, ?a, ?b] ! j) \<le> index_sum ([?c, ?a, ?b] ! 1)"
    using ia ib ic by (simp add: less_Suc_eq nth_Cons')
  have fs: "\<forall>j<1. index_sum ([?c, ?a, ?b] ! j) < index_sum ([?c, ?a, ?b] ! 1)"
    using ia ic by simp
  from resolve_tie_first_in_order[OF i mx fs] ia ib ic show ?thesis by simp
qed

text \<open>
  The same at the level of \<open>get_best_potential_match\<close>: the patterns with the fewest
  wildcards reach \<open>resolve_tie\<close> in the order of the candidate list, so among those
  with the highest index sum the first of the list is returned.
\<close>

lemma get_best_first_in_order:
  assumes wild: "\<forall>c\<in>set (xs @ m # ys). WILDCARD \<in> set c"
    and mn: "\<forall>c\<in>set (xs @ m # ys). count_list m WILDCARD \<le> count_list c WILDCARD"
    and before: "\<forall>c\<in>set xs. count_list c WILDCARD = count_list m WILDCARD
                   \<longrightarrow> index_sum c < index_sum m"
    and after: "\<forall>c\<in>set ys. count_list c WILDCARD = count_list m WILDCARD
                   \<longrightarrow> index_sum c \<le> index_sum m"
  shows "get_best_potential_match (xs @ m # ys) = Some m"
proof -
  let ?P = "\<lambda>c. count_list c WILDCARD = count_list m WILDCARD"
  define A where "A = filter ?P xs"
  define B where "B = filter ?P ys"
  define F where "F = A @ m # B"
  have m: "m \<in> set (xs @ m # ys)" by simp
  have loop: "fst (gbpm_loop (xs @ m # ys)) = F"
    using fewest_filter[OF wild m mn] by (simp add: F_def A_def B_def)
  have Ab: "\<forall>c\<in>set A. index_sum c < index_sum m" using before by (simp add: A_def)
  have Ba: "\<forall>c\<in>set B. index_sum c \<le> index_sum m" using after by (simp add: B_def)
  have i: "length A < length F" by (simp add: F_def)
  have Fi: "F ! length A = m" by (simp add: F_def)
  have mx: "\<forall>j<length F. index_sum (F ! j) \<le> index_sum (F ! length A)"
  proof (intro allI impI)
    fix j assume j: "j < length F"
    have "F ! j \<in> set F" using j by simp
    moreover have "set F = set A \<union> {m} \<union> set B" by (auto simp: F_def)
    ultimately have "F ! j \<in> set A \<or> F ! j = m \<or> F ! j \<in> set B" by blast
    then have "index_sum (F ! j) \<le> index_sum m" using Ab Ba by (auto simp: less_imp_le)
    then show "index_sum (F ! j) \<le> index_sum (F ! length A)" by (simp only: Fi)
  qed
  have fs: "\<forall>j<length A. index_sum (F ! j) < index_sum (F ! length A)"
  proof (intro allI impI)
    fix j assume j: "j < length A"
    then have "F ! j = A ! j" by (simp add: F_def nth_append)
    moreover have "A ! j \<in> set A" using j by simp
    ultimately have "index_sum (F ! j) < index_sum m" using Ab by simp
    then show "index_sum (F ! j) < index_sum (F ! length A)" by (simp only: Fi)
  qed
  have rt: "resolve_tie F = Some m"
    using resolve_tie_earliest[OF i mx fs] by (simp only: Fi)
  have g: "get_best_potential_match (xs @ m # ys) =
     (case F of [] \<Rightarrow> resolve_tie [] | [m] \<Rightarrow> Some m | a # b # cs \<Rightarrow> resolve_tie F)"
    unfolding loop[symmetric] by (rule get_best_of_fewest)
  show ?thesis
  proof (cases "A = [] \<and> B = []")
    case True
    then have "F = [m]" by (simp add: F_def)
    with g show ?thesis by simp
  next
    case False
    then have l2: "2 \<le> length F" by (cases A; cases B) (simp_all add: F_def)
    have "\<exists>a b cs. F = a # b # cs"
    proof (cases F)
      case Nil with l2 show ?thesis by simp
    next
      case (Cons a as)
      with l2 have "as \<noteq> []" by auto
      then obtain b cs where "as = b # cs" by (cases as) simp_all
      with Cons show ?thesis by simp
    qed
    then obtain a b cs where "F = a # b # cs" by (elim exE)
    with g rt show ?thesis by simp
  qed
qed

section \<open>Wildcard eligibility\<close>

lemma count_bound:
  "length xs = length ys \<Longrightarrow> WILDCARD \<notin> set xs \<Longrightarrow>
   count_list (map_eq xs ys) True + count_list ys WILDCARD \<le> length xs
   \<and> (count_list (map_eq xs ys) True + count_list ys WILDCARD = length xs
        \<longleftrightarrow> list_all2 (\<lambda>a b. a = b \<or> b = WILDCARD) xs ys)"
proof (induction xs ys rule: list_induct2)
  case Nil show ?case by simp
next
  case (Cons x xs y ys)
  from Cons.prems have xw: "x \<noteq> WILDCARD" and r: "WILDCARD \<notin> set xs" by auto
  from Cons.IH[OF r] have le: "count_list (map_eq xs ys) True + count_list ys WILDCARD \<le> length xs"
    and eq: "count_list (map_eq xs ys) True + count_list ys WILDCARD = length xs
        \<longleftrightarrow> list_all2 (\<lambda>a b. a = b \<or> b = WILDCARD) xs ys" by simp_all
  consider "x = y" | "x \<noteq> y" "y = WILDCARD" | "x \<noteq> y" "y \<noteq> WILDCARD" by blast
  then show ?case
  proof cases
    case 1
    with xw have "y \<noteq> WILDCARD" by simp
    with 1 le eq show ?thesis by simp
  next
    case 2
    with le eq show ?thesis by simp
  next
    case 3
    with le eq show ?thesis by simp
  qed
qed

text \<open>
  Claim C4. For a path and a pattern with the same number of fields, where no path field
  is the wildcard token, \<open>is_potential_match\<close> holds exactly when at every position
  the path field equals the pattern field or the pattern field is the wildcard token:
  the counting formula agrees with the position-wise condition.
\<close>

theorem is_potential_match_positionwise:
  assumes len: "length path_fields = length pattern_fields"
    and nw: "WILDCARD \<notin> set path_fields"
  shows "is_potential_match path_fields pattern_fields \<longleftrightarrow>
     (\<forall>i<length path_fields.
        path_fields ! i = pattern_fields ! i \<or> pattern_fields ! i = WILDCARD)"
proof -
  have "is_potential_match path_fields pattern_fields \<longleftrightarrow>
      count_list (map_eq path_fields pattern_fields) True + count_list pattern_fields WILDCARD
        = length path_fields"
    by (simp add: is_potential_match_def Let_def)
  also have "\<dots> \<longleftrightarrow> list_all2 (\<lambda>a b. a = b \<or> b = WILDCARD) path_fields pattern_fields"
    using count_bound[OF len nw] by (rule conjunct2)
  also have "\<dots> \<longleftrightarrow> (\<forall>i<length path_fields.
        path_fields ! i = pattern_fields ! i \<or> pattern_fields ! i = WILDCARD)"
    using len by (simp add: list_all2_conv_all_nth)
  finally show ?thesis .
qed

text \<open>
  Path \<open>a/b/c\<close> is eligible for \<open>a,*,c\<close> and not for \<open>a,*,d\<close>.
\<close>

theorem is_potential_match_positionwise_witness:
  "length [''a'', ''b'', ''c''] = length [''a'', ''*'', ''c'']
   \<and> WILDCARD \<notin> set [''a'', ''b'', ''c'']
   \<and> is_potential_match [''a'', ''b'', ''c''] [''a'', ''*'', ''c'']
   \<and> \<not> is_potential_match [''a'', ''b'', ''c''] [''a'', ''*'', ''d'']"
proof -
  have l: "length [''a'', ''b'', ''c''] = length [''a'', ''*'', ''c'']" by simp
  have l2: "length [''a'', ''b'', ''c''] = length [''a'', ''*'', ''d'']" by simp
  have n: "WILDCARD \<notin> set [''a'', ''b'', ''c'']" by (simp add: WILDCARD_def)
  have a: "is_potential_match [''a'', ''b'', ''c''] [''a'', ''*'', ''c'']"
    unfolding is_potential_match_positionwise[OF l n] by (simp add: WILDCARD_def less_Suc_eq nth_Cons')
  have b: "\<not> is_potential_match [''a'', ''b'', ''c''] [''a'', ''*'', ''d'']"
    unfolding is_potential_match_positionwise[OF l2 n] by (simp add: WILDCARD_def less_Suc_eq nth_Cons')
  from l n a b show ?thesis by simp
qed

text \<open>
  Without the precondition a position where both fields are the wildcard token is
  counted twice and covers for a position that does not match.
\<close>

lemma is_potential_match_counts_twice: "is_potential_match [''*'', ''b''] [''*'', ''c'']"
  by (simp add: is_potential_match_def WILDCARD_def)

section \<open>The result of find\_match\<close>

lemma find_match_exact:
  assumes "path_fields_of path \<in> pattern_fields_of ` set patterns"
  shows "find_match path patterns = Inr (to_string (path_fields_of path))"
proof -
  let ?pf = "path_fields_of path"
  obtain e pms where l: "find_match_loop ?pf patterns [] = (e, pms)"
    by (cases "find_match_loop ?pf patterns []")
  have "fst (find_match_loop ?pf patterns []) = Some ?pf"
    using assms by (rule find_match_loop_exact)
  with l have e: "e = Some ?pf" by simp
  show ?thesis
    unfolding find_match_def Let_def l e using path_fields_ne[of path]
    by (simp add: truthy_def)
qed

lemma find_match_no_exact:
  assumes "path_fields_of path \<notin> pattern_fields_of ` set patterns"
  shows "find_match path patterns =
     (case filter (wildcard_candidate (path_fields_of path)) (map pattern_fields_of patterns) of
        [] \<Rightarrow> Inr ''NO MATCH''
      | [m] \<Rightarrow> Inr (to_string m)
      | a # b # cs \<Rightarrow>
          (case get_best_potential_match (a # b # cs) of
             Some best_match \<Rightarrow> Inr (to_string best_match)
           | None \<Rightarrow> Inl TypeError))"
proof -
  let ?pf = "path_fields_of path"
  have l: "find_match_loop ?pf patterns []
      = (None, filter (wildcard_candidate ?pf) (map pattern_fields_of patterns))"
    using find_match_loop_none[OF assms, of "[]"] by simp
  show ?thesis
    unfolding find_match_def Let_def l
    by (simp add: truthy_def split: list.split)
qed

lemma find_match_candidates:
  assumes ne: "path_fields_of path \<notin> pattern_fields_of ` set patterns"
    and c: "filter (wildcard_candidate (path_fields_of path)) (map pattern_fields_of patterns) \<noteq> []"
  shows "\<exists>m\<in>set (filter (wildcard_candidate (path_fields_of path)) (map pattern_fields_of patterns)).
           find_match path patterns = Inr (to_string m)"
proof -
  define C where "C = filter (wildcard_candidate (path_fields_of path)) (map pattern_fields_of patterns)"
  have fm: "find_match path patterns =
     (case C of [] \<Rightarrow> Inr ''NO MATCH'' | [m] \<Rightarrow> Inr (to_string m)
      | a # b # cs \<Rightarrow>
          (case get_best_potential_match (a # b # cs) of
             Some best_match \<Rightarrow> Inr (to_string best_match)
           | None \<Rightarrow> Inl TypeError))"
    unfolding C_def using ne by (rule find_match_no_exact)
  have Cne: "C \<noteq> []" using c by (simp add: C_def)
  have "\<exists>m\<in>set C. find_match path patterns = Inr (to_string m)"
  proof (cases C)
    case Nil with Cne show ?thesis by contradiction
  next
    case (Cons a as)
    note Ca = Cons
    show ?thesis
    proof (cases as)
      case Nil
      with Ca fm show ?thesis by simp
    next
      case (Cons b bs)
      from get_best_in_set[OF Cne] obtain r where r: "get_best_potential_match C = Some r" "r \<in> set C"
        by (elim exE conjE)
      have "find_match path patterns = Inr (to_string r)"
        using fm r(1) unfolding Ca Cons by simp
      with r(2) show ?thesis by blast
    qed
  qed
  then show ?thesis by (simp only: C_def)
qed

lemma to_string_wild: "WILDCARD \<in> set m \<Longrightarrow> CHR ''*'' \<in> set (to_string m)"
  unfolding to_string_def using join_contains[of WILDCARD m "'',''"]
  by (auto simp: WILDCARD_def)

lemma to_string_no_match:
  "fs \<noteq> [] \<Longrightarrow> to_string fs = ''NO MATCH'' \<Longrightarrow> fs = [''NO MATCH'']"
proof (cases fs)
  case Nil then show "fs \<noteq> [] \<Longrightarrow> ?thesis" by simp
next
  case (Cons f gs)
  assume ts: "to_string fs = ''NO MATCH''"
  show ?thesis
  proof (cases gs)
    case Nil
    with Cons ts show ?thesis by (simp add: to_string_def)
  next
    case (Cons g hs)
    have "set '','' \<subseteq> set (str_join '','' (f # g # hs))" by (rule join_two_sep)
    then have "CHR '','' \<in> set (to_string fs)"
      using \<open>fs = f # gs\<close> Cons by (simp add: to_string_def)
    with ts show ?thesis by simp
  qed
qed

lemma to_string_pattern_inj:
  assumes "to_string (pattern_fields_of p) = to_string (pattern_fields_of q)"
  shows "pattern_fields_of p = pattern_fields_of q"
proof -
  have a: "\<And>r. str_split (CHR '','') (to_string (pattern_fields_of r)) = pattern_fields_of r"
  proof -
    fix r
    have "str_split (CHR '','') (str_join [CHR '',''] (pattern_fields_of r)) = pattern_fields_of r"
    proof (rule join_split)
      show "pattern_fields_of r \<noteq> []" by (rule pattern_fields_ne)
    next
      fix f assume "f \<in> set (pattern_fields_of r)"
      then show "CHR '','' \<notin> set f"
        unfolding pattern_fields_of_def PATTERN_DELIMITER_def by (rule split_no_delim)
    qed
    then show "str_split (CHR '','') (to_string (pattern_fields_of r)) = pattern_fields_of r"
      by (simp add: to_string_def)
  qed
  have "str_split (CHR '','') (to_string (pattern_fields_of p))
      = str_split (CHR '','') (to_string (pattern_fields_of q))" by (simp only: assms)
  then show ?thesis by (simp only: a)
qed

text \<open>The definitions a concrete run of \<open>find_match\<close> unfolds.\<close>

lemmas ev = find_match_def Let_def pattern_fields_of_def path_fields_of_def str_strip_def
  str_rstrip_def PATTERN_DELIMITER_def PATH_DELIMITER_def WILDCARD_def is_potential_match_def
  truthy_def to_string_def wildcard_candidate_def

text \<open>
  Claim C1. When some pattern of the list has, after normalisation, the same fields as
  the path, \<open>find_match\<close> returns these fields joined by commas. The result is the
  one the pattern gives when it is alone in the list: no other pattern, before or after
  it, changes the result, and the candidates collected before it are not used.
\<close>

theorem find_match_exact_wins:
  assumes p: "p \<in> set patterns"
    and eq: "pattern_fields_of p = path_fields_of path"
  shows "find_match path patterns = Inr (to_string (pattern_fields_of p))
      \<and> find_match path patterns = find_match path [p]"
proof -
  have a: "path_fields_of path \<in> pattern_fields_of ` set patterns"
    using p eq[symmetric] by (rule image_eqI[rotated])
  have b: "path_fields_of path \<in> pattern_fields_of ` set [p]"
    using eq by simp
  show ?thesis
    unfolding find_match_exact[OF a] find_match_exact[OF b] eq by simp
qed

text \<open>
  The exact match \<open>,a,b,c,\<close> comes after two wildcard candidates and before a third.
\<close>

theorem find_match_exact_wins_witness:
  "''*,b,c'' \<in> set [''*,b,c'', ''a,*,c'', '',a,b,c,'', ''a,b,*'']
   \<and> '',a,b,c,'' \<in> set [''*,b,c'', ''a,*,c'', '',a,b,c,'', ''a,b,*'']
   \<and> pattern_fields_of '',a,b,c,'' = path_fields_of ''/a/b/c/''
   \<and> find_match ''/a/b/c/'' [''*,b,c'', ''a,*,c'', '',a,b,c,'', ''a,b,*''] = Inr ''a,b,c''"
proof -
  have p: "'',a,b,c,'' \<in> set [''*,b,c'', ''a,*,c'', '',a,b,c,'', ''a,b,*'']" by simp
  have f: "pattern_fields_of '',a,b,c,'' = [''a'', ''b'', ''c'']"
    by (simp add: pattern_fields_of_def PATTERN_DELIMITER_def str_strip_def str_rstrip_def)
  have g: "path_fields_of ''/a/b/c/'' = [''a'', ''b'', ''c'']"
    by (simp add: path_fields_of_def PATH_DELIMITER_def str_strip_def str_rstrip_def)
  have eq: "pattern_fields_of '',a,b,c,'' = path_fields_of ''/a/b/c/''" using f g by simp
  from find_match_exact_wins[OF p eq] have "find_match ''/a/b/c/'' [''*,b,c'', ''a,*,c'', '',a,b,c,'', ''a,b,*'']
      = Inr (to_string (pattern_fields_of '',a,b,c,''))" by (rule conjunct1)
  then have "find_match ''/a/b/c/'' [''*,b,c'', ''a,*,c'', '',a,b,c,'', ''a,b,*''] = Inr ''a,b,c''"
    by (simp add: f to_string_def)
  with p eq show ?thesis by simp
qed

lemma find_match_loop_fst:
  "fst (find_match_loop pf pats []) = Some e \<Longrightarrow> e = pf \<and> pf \<in> pattern_fields_of ` set pats"
proof (cases "pf \<in> pattern_fields_of ` set pats")
  case True
  assume "fst (find_match_loop pf pats []) = Some e"
  with find_match_loop_exact[OF True, of "[]"] True show ?thesis by simp
next
  case False
  assume "fst (find_match_loop pf pats []) = Some e"
  with find_match_loop_none[OF False, of "[]"] show ?thesis by simp
qed

lemma find_match_total: "\<exists>s. find_match path patterns = Inr s"
proof (cases "path_fields_of path \<in> pattern_fields_of ` set patterns")
  case True
  from find_match_exact[OF True] show ?thesis by blast
next
  case False
  show ?thesis
  proof (cases "filter (wildcard_candidate (path_fields_of path)) (map pattern_fields_of patterns) = []")
    case True
    with find_match_no_exact[OF False] show ?thesis by simp
  next
    case c: False
    from find_match_candidates[OF False c] show ?thesis by blast
  qed
qed

text \<open>
  Claim C5. A pattern whose number of fields differs from the path's is never chosen:
  when the scan is left it is neither the exact match nor among the potential matches,
  and \<open>find_match\<close> can only print the same text as the pattern when nothing
  matched at all (the text is then the sentinel).
\<close>

theorem find_match_field_count_mismatch:
  assumes len: "length (pattern_fields_of p) \<noteq> length (path_fields_of path)"
  shows "fst (find_match_loop (path_fields_of path) patterns []) \<noteq> Some (pattern_fields_of p)
     \<and> pattern_fields_of p \<notin> set (snd (find_match_loop (path_fields_of path) patterns []))
     \<and> (find_match path patterns = Inr (to_string (pattern_fields_of p))
          \<longrightarrow> find_match_loop (path_fields_of path) patterns [] = (None, []))"
proof -
  let ?pf = "path_fields_of path"
  let ?f = "pattern_fields_of p"
  have a: "fst (find_match_loop ?pf patterns []) \<noteq> Some ?f"
  proof
    assume "fst (find_match_loop ?pf patterns []) = Some ?f"
    then have "?f = ?pf" using find_match_loop_fst by blast
    with len show False by simp
  qed
  have b: "?f \<notin> set (snd (find_match_loop ?pf patterns []))"
  proof
    assume "?f \<in> set (snd (find_match_loop ?pf patterns []))"
    then have "wildcard_candidate ?pf ?f" using find_match_loop_sub[of ?pf patterns "[]"] by auto
    with len show False by (simp add: wildcard_candidate_def)
  qed
  have c: "find_match path patterns = Inr (to_string ?f)
          \<longrightarrow> find_match_loop ?pf patterns [] = (None, [])"
  proof
    assume r: "find_match path patterns = Inr (to_string ?f)"
    show "find_match_loop ?pf patterns [] = (None, [])"
    proof (cases "?pf \<in> pattern_fields_of ` set patterns")
      case True
      then obtain q where q: "?pf = pattern_fields_of q" by blast
      from find_match_exact[OF True] r have "to_string ?f = to_string (pattern_fields_of q)"
        by (simp add: q)
      then have "?f = pattern_fields_of q" by (rule to_string_pattern_inj)
      with q len show ?thesis by simp
    next
      case False
      let ?C = "filter (wildcard_candidate ?pf) (map pattern_fields_of patterns)"
      have l: "find_match_loop ?pf patterns [] = (None, ?C)"
        using find_match_loop_none[OF False, of "[]"] by simp
      have "?C = []"
      proof (rule ccontr)
        assume cne: "?C \<noteq> []"
        from find_match_candidates[OF False cne] obtain m where m: "m \<in> set ?C"
          and fm: "find_match path patterns = Inr (to_string m)" by blast
        from m obtain q where q: "m = pattern_fields_of q" and wc: "wildcard_candidate ?pf m"
          by auto
        from fm r have "to_string ?f = to_string (pattern_fields_of q)" by (simp add: q)
        then have "?f = pattern_fields_of q" by (rule to_string_pattern_inj)
        with q wc len show False by (simp add: wildcard_candidate_def)
      qed
      with l show ?thesis by simp
    qed
  qed
  from a b c show ?thesis by blast
qed

text \<open>
  The spec's example: \<open>a,*\<close> is never considered for the path \<open>a/b/c\<close>.
\<close>

theorem find_match_field_count_mismatch_witness:
  "length (pattern_fields_of ''a,*'') \<noteq> length (path_fields_of ''a/b/c'')
   \<and> fst (find_match_loop (path_fields_of ''a/b/c'') [''a,*'', ''a,*,c''] [])
        \<noteq> Some (pattern_fields_of ''a,*'')
   \<and> pattern_fields_of ''a,*''
        \<notin> set (snd (find_match_loop (path_fields_of ''a/b/c'') [''a,*'', ''a,*,c''] []))
   \<and> find_match ''a/b/c'' [''a,*'', ''a,*,c''] = Inr ''a,*,c''"
proof -
  have l: "length (pattern_fields_of ''a,*'') \<noteq> length (path_fields_of ''a/b/c'')"
    by (simp add: ev)
  have r: "find_match ''a/b/c'' [''a,*'', ''a,*,c''] = Inr ''a,*,c''" by (simp add: ev)
  from find_match_field_count_mismatch[OF l, of "[''a,*'', ''a,*,c'']"] l r show ?thesis by simp
qed

text \<open>
  The result is the text NO MATCH exactly when the scan finds neither an exact match
  nor a pattern that passes its append test, or when the path is the single field
  NO MATCH and is matched exactly. \<open>find_match\<close> always returns a string.
\<close>

lemma find_match_no_match_code:
  "(find_match path patterns = Inr ''NO MATCH'' \<longleftrightarrow>
      (path_fields_of path \<notin> pattern_fields_of ` set patterns
         \<and> (\<forall>p\<in>set patterns. \<not> wildcard_candidate (path_fields_of path) (pattern_fields_of p)))
      \<or> (path_fields_of path = [''NO MATCH'']
         \<and> path_fields_of path \<in> pattern_fields_of ` set patterns))
   \<and> (\<exists>s. find_match path patterns = Inr s)"
proof -
  let ?pf = "path_fields_of path"
  let ?C = "filter (wildcard_candidate ?pf) (map pattern_fields_of patterns)"
  have nc: "(\<forall>p\<in>set patterns. \<not> wildcard_candidate ?pf (pattern_fields_of p)) \<longleftrightarrow> ?C = []"
    by (auto simp: filter_empty_conv)
  have "find_match path patterns = Inr ''NO MATCH'' \<longleftrightarrow>
      (?pf \<notin> pattern_fields_of ` set patterns \<and> ?C = [])
      \<or> (?pf = [''NO MATCH''] \<and> ?pf \<in> pattern_fields_of ` set patterns)"
  proof (cases "?pf \<in> pattern_fields_of ` set patterns")
    case True
    have "to_string ?pf = ''NO MATCH'' \<longleftrightarrow> ?pf = [''NO MATCH'']"
    proof
      assume "to_string ?pf = ''NO MATCH''"
      with path_fields_ne[of path] show "?pf = [''NO MATCH'']" by (rule to_string_no_match)
    next
      assume "?pf = [''NO MATCH'']"
      then show "to_string ?pf = ''NO MATCH''" by (simp add: to_string_def)
    qed
    with True show ?thesis unfolding find_match_exact[OF True] by simp
  next
    case False
    show ?thesis
    proof (cases "?C = []")
      case True
      with False find_match_no_exact[OF False] show ?thesis by simp
    next
      case cne: False
      from find_match_candidates[OF False cne] obtain m where m: "m \<in> set ?C"
        and fm: "find_match path patterns = Inr (to_string m)" by blast
      from m have "WILDCARD \<in> set m" by (simp add: wildcard_candidate_def)
      then have "CHR ''*'' \<in> set (to_string m)" by (rule to_string_wild)
      then have "to_string m \<noteq> ''NO MATCH''" by auto
      with fm False cne show ?thesis by simp
    qed
  qed
  with nc find_match_total[of path patterns] show ?thesis by simp
qed

text \<open>
  When no path field is the wildcard token, the append test of the scan is the
  position-wise condition on patterns of the path's length that contain a wildcard.
\<close>

lemma wildcard_candidate_positionwise:
  assumes nw: "WILDCARD \<notin> set pf"
  shows "wildcard_candidate pf f \<longleftrightarrow>
     length pf = length f \<and> WILDCARD \<in> set f
     \<and> (\<forall>i<length pf. pf ! i = f ! i \<or> f ! i = WILDCARD)"
proof (cases "length pf = length f")
  case False
  then show ?thesis by (simp add: wildcard_candidate_def)
next
  case True
  have "is_potential_match pf f \<longleftrightarrow>
      count_list (map_eq pf f) True + count_list f WILDCARD = length pf"
    by (simp add: is_potential_match_def Let_def)
  also have "\<dots> \<longleftrightarrow> list_all2 (\<lambda>a b. a = b \<or> b = WILDCARD) pf f"
    using count_bound[OF True nw] by (rule conjunct2)
  also have "\<dots> \<longleftrightarrow> (\<forall>i<length pf. pf ! i = f ! i \<or> f ! i = WILDCARD)"
    using True by (simp add: list_all2_conv_all_nth)
  finally show ?thesis using True by (simp add: wildcard_candidate_def)
qed

text \<open>
  Claim C6, as amended. For a path none of whose fields is the wildcard token,
  \<open>find_match\<close> returns the text NO MATCH exactly when no pattern is an exact match
  and no pattern is a wildcard-eligible candidate of equal field count (the same number
  of fields, at least one wildcard field, and at every position the path's field or the
  wildcard token), or when the path consists of the single field NO MATCH and a pattern
  matches it exactly. It always returns a string and never raises.
\<close>

theorem find_match_no_match_iff:
  assumes nw: "WILDCARD \<notin> set (path_fields_of path)"
  shows "(find_match path patterns = Inr ''NO MATCH'' \<longleftrightarrow>
      (path_fields_of path \<notin> pattern_fields_of ` set patterns
         \<and> (\<forall>p\<in>set patterns.
               \<not> (length (path_fields_of path) = length (pattern_fields_of p)
                  \<and> WILDCARD \<in> set (pattern_fields_of p)
                  \<and> (\<forall>i<length (path_fields_of path).
                        path_fields_of path ! i = pattern_fields_of p ! i
                        \<or> pattern_fields_of p ! i = WILDCARD))))
      \<or> (path_fields_of path = [''NO MATCH'']
         \<and> path_fields_of path \<in> pattern_fields_of ` set patterns))
   \<and> (\<exists>s. find_match path patterns = Inr s)"
  using find_match_no_match_code[of path patterns]
  unfolding wildcard_candidate_positionwise[OF nw] .

text \<open>
  Claim C6 as stated fails in three ways. The path \<open>NO MATCH\<close> is matched exactly by
  the pattern \<open>NO MATCH\<close>, and the result is the text NO MATCH. For the path
  \<open>*/b\<close> the pattern \<open>*,c\<close> is returned although its second field neither equals
  \<open>b\<close> nor is the wildcard token, and the pattern \<open>*,*\<close>, a wildcard at every
  position, gives NO MATCH: a wildcard token in the path is counted as a match and as a
  wildcard.
\<close>

theorem find_match_no_match_collision:
  "find_match ''NO MATCH'' [''NO MATCH''] = Inr ''NO MATCH''
   \<and> pattern_fields_of ''NO MATCH'' = path_fields_of ''NO MATCH''
   \<and> find_match ''*/b'' [''*,c''] = Inr ''*,c''
   \<and> path_fields_of ''*/b'' ! 1 \<noteq> pattern_fields_of ''*,c'' ! 1
   \<and> pattern_fields_of ''*,c'' ! 1 \<noteq> WILDCARD
   \<and> find_match ''*/b'' [''*,*''] = Inr ''NO MATCH''
   \<and> pattern_fields_of ''*,*'' = [WILDCARD, WILDCARD]
   \<and> length (path_fields_of ''*/b'') = 2"
  by (simp add: ev)

text \<open>
  Path \<open>x/y\<close> against \<open>a,b\<close> (no wildcard), \<open>x,*,z\<close> (three fields) and
  \<open>*,z\<close> (second field differs): nothing matches.
\<close>

theorem find_match_no_match_iff_witness:
  "WILDCARD \<notin> set (path_fields_of ''x/y'')
   \<and> path_fields_of ''x/y'' = [''x'', ''y'']
   \<and> pattern_fields_of ''a,b'' = [''a'', ''b'']
   \<and> pattern_fields_of ''x,*,z'' = [''x'', ''*'', ''z'']
   \<and> pattern_fields_of ''*,z'' = [''*'', ''z'']
   \<and> find_match ''x/y'' [''a,b'', ''x,*,z'', ''*,z''] = Inr ''NO MATCH''"
proof -
  have pf: "path_fields_of ''x/y'' = [''x'', ''y'']" by (simp add: ev)
  have a: "pattern_fields_of ''a,b'' = [''a'', ''b'']" by (simp add: ev)
  have b: "pattern_fields_of ''x,*,z'' = [''x'', ''*'', ''z'']" by (simp add: ev)
  have c: "pattern_fields_of ''*,z'' = [''*'', ''z'']" by (simp add: ev)
  have nw: "WILDCARD \<notin> set (path_fields_of ''x/y'')" by (simp add: pf WILDCARD_def)
  have "find_match ''x/y'' [''a,b'', ''x,*,z'', ''*,z''] = Inr ''NO MATCH''"
    using find_match_no_match_iff[OF nw, of "[''a,b'', ''x,*,z'', ''*,z'']"]
    by (simp add: pf a b c WILDCARD_def less_Suc_eq nth_Cons')
  with nw pf a b c show ?thesis by simp
qed

text \<open>
  Claim C10. Every pattern the scan of \<open>find_match\<close> collects has at least one
  wildcard field. So while \<open>get_best_potential_match\<close> runs over these candidates,
  \<open>wildcard_counter\<close> is a number of at least 1 after every candidate, the first-entry
  test is false from the second candidate on, and the result is one of the candidates.
\<close>

theorem candidates_have_wildcards:
  "(\<forall>m\<in>set (snd (find_match_loop (path_fields_of path) patterns [])).
       1 \<le> count_list m WILDCARD)
   \<and> (\<forall>k. 0 < k \<and> k \<le> length (snd (find_match_loop (path_fields_of path) patterns []))
         \<longrightarrow> (\<exists>c. snd (gbpm_loop (take k (snd (find_match_loop (path_fields_of path) patterns []))))
                     = Some c \<and> 1 \<le> c))
   \<and> (snd (find_match_loop (path_fields_of path) patterns []) \<noteq> []
         \<longrightarrow> (\<exists>r. get_best_potential_match (snd (find_match_loop (path_fields_of path) patterns []))
                     = Some r
                  \<and> r \<in> set (snd (find_match_loop (path_fields_of path) patterns []))))"
proof -
  define ms where "ms = snd (find_match_loop (path_fields_of path) patterns [])"
  let ?w = "\<lambda>m. count_list m WILDCARD"
  have a: "\<forall>m\<in>set ms. 1 \<le> ?w m"
  proof
    fix m assume "m \<in> set ms"
    then have "wildcard_candidate (path_fields_of path) m"
      using find_match_loop_sub[of "path_fields_of path" patterns "[]"] by (auto simp: ms_def)
    then show "1 \<le> ?w m" by (simp add: wildcard_candidate_def wild_count)
  qed
  have b: "\<forall>k. 0 < k \<and> k \<le> length ms \<longrightarrow> (\<exists>c. snd (gbpm_loop (take k ms)) = Some c \<and> 1 \<le> c)"
  proof (intro allI impI)
    fix k assume k: "0 < k \<and> k \<le> length ms"
    then have ne: "take k ms \<noteq> []" by auto
    have w: "\<forall>m\<in>set (take k ms). 1 \<le> ?w m" using a by (auto dest: in_set_takeD)
    have fin: "finite (?w ` set (take k ms))" "?w ` set (take k ms) \<noteq> {}" using ne by simp_all
    have "Min (?w ` set (take k ms)) \<in> ?w ` set (take k ms)" using Min_in[OF fin] .
    then have "1 \<le> Min (?w ` set (take k ms))" using w by auto
    moreover have "snd (gbpm_loop (take k ms)) = Some (Min (?w ` set (take k ms)))"
      using gbpm_loop_wild[OF ne w] by simp
    ultimately show "\<exists>c. snd (gbpm_loop (take k ms)) = Some c \<and> 1 \<le> c" by blast
  qed
  have c: "ms \<noteq> [] \<longrightarrow> (\<exists>r. get_best_potential_match ms = Some r \<and> r \<in> set ms)"
    using get_best_in_set by blast
  from a b c show ?thesis unfolding ms_def by blast
qed

text \<open>
  Path \<open>a/b/c\<close> with three wildcard candidates and one pattern that does not match.
\<close>

theorem candidates_have_wildcards_witness:
  "snd (find_match_loop (path_fields_of ''a/b/c'') [''*,*,c'', ''x,y,z'', ''a,*,c'', ''*,b,c''] [])
     = [[''*'', ''*'', ''c''], [''a'', ''*'', ''c''], [''*'', ''b'', ''c'']]
   \<and> 1 \<le> count_list [''*'', ''*'', ''c''] WILDCARD
   \<and> 1 \<le> count_list [''a'', ''*'', ''c''] WILDCARD
   \<and> 1 \<le> count_list [''*'', ''b'', ''c''] WILDCARD
   \<and> get_best_potential_match [[''*'', ''*'', ''c''], [''a'', ''*'', ''c''], [''*'', ''b'', ''c'']]
       \<in> {Some [''*'', ''*'', ''c''], Some [''a'', ''*'', ''c''], Some [''*'', ''b'', ''c'']}"
proof -
  have l: "snd (find_match_loop (path_fields_of ''a/b/c'') [''*,*,c'', ''x,y,z'', ''a,*,c'', ''*,b,c''] [])
     = [[''*'', ''*'', ''c''], [''a'', ''*'', ''c''], [''*'', ''b'', ''c'']]"
    by (simp add: ev)
  from candidates_have_wildcards[of "''a/b/c''" "[''*,*,c'', ''x,y,z'', ''a,*,c'', ''*,b,c'']"]
  show ?thesis unfolding l by auto
qed

text \<open>
  The precondition matters: after a candidate without a wildcard the counter is 0, the
  first-entry test holds again, and a candidate with more wildcards is kept as well.
  \<open>find_match\<close> never passes such a list.
\<close>

lemma first_entry_test_after_zero:
  "gbpm_loop [[''a'', ''b''], [''a'', ''*'']] = ([[''a'', ''b''], [''a'', ''*'']], Some 1)
   \<and> get_best_potential_match [[''a'', ''b''], [''a'', ''*'']] = Some [''a'', ''*'']"
  by (simp add: get_best_potential_match_def gbpm_loop_def gbpm_step_def resolve_tie_def
      resolve_tie_loop_def resolve_tie_step_def index_sum_def WILDCARD_def enumerate_eq_zip
      upt_rec)

section \<open>The field splitter\<close>

text \<open>
  Claim C7. \<open>s.strip(d).split(d)\<close> for a one-character delimiter \<open>d\<close>: delimiters
  added at either end of the string do not change the fields; what \<open>strip\<close> removes
  is a run of delimiters at each end, and what is left neither starts nor ends with the
  delimiter; \<open>split\<close> cuts at every delimiter (joining the fields with the delimiter
  gives the string back, no field contains the delimiter, and there is one field more
  than delimiters). So \<open>/a/b/c/\<close> and \<open>a/b/c\<close> have the same fields, as have
  \<open>,a,b,c,\<close> and \<open>a,b,c\<close>, and a string that is empty after stripping gives the
  one field \<open>''\<close>.
\<close>

theorem field_splitter_strips_and_splits:
  "str_split d (str_strip d (replicate i d @ s @ replicate j d)) = str_split d (str_strip d s)
   \<and> (\<exists>i j. replicate i d @ str_strip d s @ replicate j d = s)
   \<and> (str_strip d s \<noteq> [] \<longrightarrow> hd (str_strip d s) \<noteq> d \<and> last (str_strip d s) \<noteq> d)
   \<and> str_join [d] (str_split d t) = t
   \<and> (\<forall>f\<in>set (str_split d t). d \<notin> set f)
   \<and> length (str_split d t) = count_list t d + 1
   \<and> path_fields_of ''/a/b/c/'' = path_fields_of ''a/b/c''
   \<and> pattern_fields_of '',a,b,c,'' = pattern_fields_of ''a,b,c''
   \<and> (str_strip d s = [] \<longrightarrow> str_split d (str_strip d s) = [[]])"
proof -
  have a: "str_split d (str_strip d (replicate i d @ s @ replicate j d)) = str_split d (str_strip d s)"
    by (simp only: strip_run)
  have b: "\<exists>i j. replicate i d @ str_strip d s @ replicate j d = s" by (rule strip_decomp)
  have c: "str_strip d s \<noteq> [] \<longrightarrow> hd (str_strip d s) \<noteq> d \<and> last (str_strip d s) \<noteq> d"
    using strip_hd[of d s] strip_last[of d s] by blast
  have e: "str_join [d] (str_split d t) = t" by (rule split_join)
  have f: "\<forall>f\<in>set (str_split d t). d \<notin> set f" using split_no_delim[of _ d t] by blast
  have g: "length (str_split d t) = count_list t d + 1" by (rule split_length)
  have h: "path_fields_of ''/a/b/c/'' = path_fields_of ''a/b/c''"
    using strip_run[of "CHR ''/''" 1 "''a/b/c''" 1] by (simp add: path_fields_of_def PATH_DELIMITER_def)
  have k: "pattern_fields_of '',a,b,c,'' = pattern_fields_of ''a,b,c''"
    using strip_run[of "CHR '',''" 1 "''a,b,c''" 1]
    by (simp add: pattern_fields_of_def PATTERN_DELIMITER_def)
  have l: "str_strip d s = [] \<longrightarrow> str_split d (str_strip d s) = [[]]" by simp
  from a b c e f g h k l show ?thesis by blast
qed

text \<open>
  A path of slashes only has the single empty field; \<open>//a/b/c/\<close> has the fields
  \<open>a\<close>, \<open>b\<close>, \<open>c\<close>.
\<close>

theorem field_splitter_strips_and_splits_witness:
  "str_strip (CHR ''/'') ''///'' = []
   \<and> path_fields_of ''///'' = [[]]
   \<and> str_strip (CHR ''/'') ''a/b/c'' \<noteq> []
   \<and> path_fields_of (replicate 2 (CHR ''/'') @ ''a/b/c'' @ replicate 1 (CHR ''/'')) = [''a'', ''b'', ''c'']
   \<and> (CHR ''/'') \<notin> set ''a'' \<and> (CHR ''/'') \<notin> set ''b'' \<and> (CHR ''/'') \<notin> set ''c''"
proof -
  have e: "str_strip (CHR ''/'') ''///'' = []" by (simp add: str_strip_def str_rstrip_def)
  have n: "str_strip (CHR ''/'') ''a/b/c'' \<noteq> []" by (simp add: str_strip_def str_rstrip_def)
  have v: "str_split (CHR ''/'') (str_strip (CHR ''/'') ''a/b/c'') = [''a'', ''b'', ''c'']"
    by (simp add: str_strip_def str_rstrip_def)
  note t = field_splitter_strips_and_splits[of "CHR ''/''" 2 "''a/b/c''" 1 "''a/b/c''"]
  note u = field_splitter_strips_and_splits[of "CHR ''/''" 0 "''///''" 0 "''''"]
  from u e have "path_fields_of ''///'' = [[]]"
    by (simp add: path_fields_of_def PATH_DELIMITER_def)
  moreover from t v
  have "path_fields_of (replicate 2 (CHR ''/'') @ ''a/b/c'' @ replicate 1 (CHR ''/'')) = [''a'', ''b'', ''c'']"
    unfolding path_fields_of_def PATH_DELIMITER_def by (elim conjE) (simp only:)
  ultimately show ?thesis using e n by simp
qed

section \<open>The driver\<close>

lemma print_loop_outputs:
  "\<exists>outs. print_loop paths patterns out = (out @ outs, None)
      \<and> map Inr outs = map (\<lambda>path. find_match path patterns) paths"
proof (induction paths arbitrary: out)
  case Nil show ?case by simp
next
  case (Cons p ps)
  from find_match_total[of p patterns] obtain s where s: "find_match p patterns = Inr s"
    by (elim exE)
  from Cons[of "out @ [s]"] obtain outs where o: "print_loop ps patterns (out @ [s]) = ((out @ [s]) @ outs, None)"
    "map Inr outs = map (\<lambda>path. find_match path patterns) ps" by (elim exE conjE)
  have "print_loop (p # ps) patterns out = (out @ (s # outs), None)
      \<and> map Inr (s # outs) = map (\<lambda>path. find_match path patterns) (p # ps)"
    using s o by simp
  then show ?case by blast
qed

text \<open>
  Claim C8, as amended. When the first line and the line after the pattern block are
  integers that \<open>islice\<close> accepts as counts, from 0 to \<open>sys.maxint\<close>, \<open>main\<close>
  ends without an exception and prints one line for every path line it consumed, in
  the order of the path lines: the result of \<open>find_match\<close> for that path against the
  patterns read. The path lines consumed are
  the declared number of lines after the second header, or all that are left when the
  input ends before.
\<close>

theorem main_one_line_per_path:
  assumes h1: "py_int (str_rstrip (CHR 0x0A) l0) = Some P"
    and P: "0 \<le> P" "P \<le> maxint"
    and h2: "nat P < length rest"
    and h3: "py_int (str_rstrip (CHR 0x0A) (rest ! nat P)) = Some N"
    and N: "0 \<le> N" "N \<le> maxint"
  shows "\<exists>outs. main py_int maxint (l0 # rest) = (outs, None)
      \<and> map Inr outs =
          map (\<lambda>path. find_match path (map (str_rstrip (CHR 0x0A)) (take (nat P) rest)))
              (map (str_rstrip (CHR 0x0A)) (take (nat N) (drop (nat P + 1) rest)))
      \<and> length outs = min (nat N) (length rest - (nat P + 1))
      \<and> int (length outs) \<le> N"
proof -
  let ?r = "str_rstrip (CHR 0x0A)"
  let ?inputs1 = "map ?r rest"
  let ?patterns = "map ?r (take (nat P) rest)"
  let ?paths = "map ?r (take (nat N) (drop (nat P + 1) rest))"
  have rc1: "read_count py_int (map ?r (l0 # rest)) = Inr (P, ?inputs1)"
    using h1 by (simp add: read_count_def)
  have is1: "islice maxint ?inputs1 P = Inr (?patterns, drop (nat P) ?inputs1)"
    using P by (simp add: islice_def take_map)
  have d: "drop (nat P) ?inputs1 = ?r (rest ! nat P) # map ?r (drop (nat P + 1) rest)"
    using Cons_nth_drop_Suc[OF h2, symmetric] by (simp add: drop_map)
  have rc2: "read_count py_int (drop (nat P) ?inputs1) = Inr (N, map ?r (drop (nat P + 1) rest))"
    unfolding d using h3 by (simp add: read_count_def)
  have is2: "islice maxint (map ?r (drop (nat P + 1) rest)) N
      = Inr (?paths, drop (nat N) (map ?r (drop (nat P + 1) rest)))"
    using N by (simp add: islice_def take_map)
  have m: "main py_int maxint (l0 # rest) = print_loop ?paths ?patterns []"
    using rc1 is1 rc2 is2 by (simp add: main_def)
  from print_loop_outputs[of ?paths ?patterns "[]"] obtain outs
    where o: "print_loop ?paths ?patterns [] = (outs, None)"
      "map Inr outs = map (\<lambda>path. find_match path ?patterns) ?paths" by auto
  from o(2) have "length (map Inr outs :: (error + string) list)
      = length (map (\<lambda>path. find_match path ?patterns) ?paths)" by (rule arg_cong)
  then have len: "length outs = min (nat N) (length rest - (nat P + 1))"
    by (simp add: min.commute)
  then have "int (length outs) \<le> N" using N by simp
  with m o len show ?thesis by simp
qed

text \<open>
  Two patterns, three paths declared and two given: two lines are printed.
\<close>

theorem main_one_line_per_path_witness:
  "main (\<lambda>s. if s = ''2'' then Some 2 else if s = ''3'' then Some 3 else None)
        9223372036854775807
        [''2'' @ [CHR 0x0A], ''*,b,c'' @ [CHR 0x0A], ''a,*,c'' @ [CHR 0x0A],
         ''3'' @ [CHR 0x0A], ''/a/b/c/'' @ [CHR 0x0A], ''x/y'']
     = ([''a,*,c'', ''NO MATCH''], None)"
proof -
  let ?int = "\<lambda>s. if s = ''2'' then Some (2::int) else if s = ''3'' then Some 3 else None"
  let ?rest = "[''*,b,c'' @ [CHR 0x0A], ''a,*,c'' @ [CHR 0x0A],
         ''3'' @ [CHR 0x0A], ''/a/b/c/'' @ [CHR 0x0A], ''x/y'']"
  have h1: "?int (str_rstrip (CHR 0x0A) (''2'' @ [CHR 0x0A])) = Some 2"
    by (simp add: str_rstrip_def)
  have h2: "nat 2 < length ?rest" by simp
  have h3: "?int (str_rstrip (CHR 0x0A) (?rest ! nat 2)) = Some 3"
    by (simp add: str_rstrip_def)
  from main_one_line_per_path[of ?int "''2'' @ [CHR 0x0A]" 2 9223372036854775807 ?rest 3, OF h1 _ _ h2 h3]
  obtain outs where m: "main ?int 9223372036854775807 ((''2'' @ [CHR 0x0A]) # ?rest) = (outs, None)"
    and o: "map Inr outs =
          map (\<lambda>path. find_match path (map (str_rstrip (CHR 0x0A)) (take (nat 2) ?rest)))
              (map (str_rstrip (CHR 0x0A)) (take (nat 3) (drop (nat 2 + 1) ?rest)))"
    by auto
  have p: "map (str_rstrip (CHR 0x0A)) (take (nat 2) ?rest) = [''*,b,c'', ''a,*,c'']"
    by (simp add: str_rstrip_def)
  have q: "map (str_rstrip (CHR 0x0A)) (take (nat 3) (drop (nat 2 + 1) ?rest)) = [''/a/b/c/'', ''x/y'']"
    by (simp add: str_rstrip_def)
  have f1: "find_match ''/a/b/c/'' [''*,b,c'', ''a,*,c''] = Inr ''a,*,c''"
    by (simp add: ev get_best_potential_match_def gbpm_loop_def gbpm_step_def resolve_tie_def
        resolve_tie_loop_def resolve_tie_step_def index_sum_def enumerate_eq_zip upt_rec)
  have f2: "find_match ''x/y'' [''*,b,c'', ''a,*,c''] = Inr ''NO MATCH''"
    by (simp add: ev)
  from o have "map Inr outs = [Inr ''a,*,c'', Inr ''NO MATCH'' :: error + string]"
    unfolding p q by (simp add: f1 f2)
  then have "outs = [''a,*,c'', ''NO MATCH'']" by (auto simp: map_eq_Cons_conv)
  with m show ?thesis by simp
qed

text \<open>
  Claim C8 as stated fails: a header that is an integer below 0 or above
  \<open>sys.maxint\<close> is refused by \<open>islice\<close>, and the run ends with a ValueError
  before anything is printed. Here the second header is \<open>-1\<close>, the second header is
  \<open>sys.maxint + 1\<close>, and the first header is \<open>-1\<close>.
\<close>

theorem main_count_out_of_range:
  "main (\<lambda>s. if s = ''1'' then Some 1 else if s = ''-1'' then Some (- 1) else None)
        9223372036854775807
        [''1'' @ [CHR 0x0A], ''a,b'' @ [CHR 0x0A], ''-1'' @ [CHR 0x0A], ''a/b'' @ [CHR 0x0A]]
     = ([], Some ValueError)
   \<and> main (\<lambda>s. if s = ''1'' then Some 1
                else if s = ''9223372036854775808'' then Some 9223372036854775808 else None)
        9223372036854775807
        [''1'' @ [CHR 0x0A], ''a,b'' @ [CHR 0x0A], ''9223372036854775808'' @ [CHR 0x0A],
         ''a/b'' @ [CHR 0x0A]]
     = ([], Some ValueError)
   \<and> main (\<lambda>s. if s = ''1'' then Some 1 else if s = ''-1'' then Some (- 1) else None)
        9223372036854775807
        [''-1'' @ [CHR 0x0A], ''1'' @ [CHR 0x0A], ''a/b'' @ [CHR 0x0A]]
     = ([], Some ValueError)"
  by (simp add: main_def read_count_def islice_def str_rstrip_def)

text \<open>
  When the input ends before the second header, the run ends with an IndexError.
\<close>

lemma main_short_pattern_block:
  "main (\<lambda>s. if s = ''2'' then Some 2 else None) 9223372036854775807
        [''2'' @ [CHR 0x0A], ''a,b'' @ [CHR 0x0A]] = ([], Some IndexError)"
  by (simp add: main_def read_count_def islice_def str_rstrip_def)

end
